theory Spec2Isabelle
  imports Main "HOL-Library.Multiset"
begin

section \<open>Strings and POSIX paths\<close>

text \<open>
  The script \<^verbatim>\<open>generateFileTree.py\<close> works on Python strings and on the path
  functions of \<^verbatim>\<open>os.path\<close>. The functions below are the POSIX versions
  (\<^verbatim>\<open>posixpath\<close>, where \<^verbatim>\<open>os.sep\<close> is the slash), written on character lists.
\<close>

definition sep :: char where
  "sep = CHR ''/''"

definition backslash :: char where
  "backslash = CHR 0x5C"

text \<open>\<^verbatim>\<open>s.split(os.sep)\<close>: the pieces between the slashes; never the empty list.\<close>

fun split_sep :: "string \<Rightarrow> string list" where
  "split_sep [] = [[]]"
| "split_sep (c # cs) =
     (if c = sep then [] # split_sep cs
      else (c # hd (split_sep cs)) # tl (split_sep cs))"

text \<open>\<^verbatim>\<open>os.sep.join(parts)\<close>.\<close>

fun join_sep :: "string list \<Rightarrow> string" where
  "join_sep [] = []"
| "join_sep [w] = w"
| "join_sep (w # v # ws) = w @ sep # join_sep (v # ws)"

text \<open>\<^verbatim>\<open>s.lstrip(os.sep)\<close> and \<^verbatim>\<open>s.rstrip(os.sep)\<close>.\<close>

definition lstrip_sep :: "string \<Rightarrow> string" where
  "lstrip_sep s = dropWhile (\<lambda>c. c = sep) s"

definition rstrip_sep :: "string \<Rightarrow> string" where
  "rstrip_sep s = rev (dropWhile (\<lambda>c. c = sep) (rev s))"

text \<open>\<^verbatim>\<open>s.replace('\\', '/')\<close>: every backslash becomes a slash.\<close>

definition replace_backslash :: "string \<Rightarrow> string" where
  "replace_backslash s = map (\<lambda>c. if c = backslash then sep else c) s"

text \<open>
  \<^verbatim>\<open>s.lower()\<close>. Only the letters A to Z are mapped: no other character lowers to an
  ASCII letter that occurs in the word the script compares with.
\<close>

definition lower_char :: "char \<Rightarrow> char" where
  "lower_char c =
     (let k = (of_char c :: nat) in if 65 \<le> k \<and> k \<le> 90 then char_of (k + 32) else c)"

definition lower :: "string \<Rightarrow> string" where
  "lower s = map lower_char s"

text \<open>
  \<^verbatim>\<open>os.path.join(a, b)\<close>: an absolute second part replaces the first; otherwise the
  parts are glued with one slash, unless the first is empty or ends with one.
\<close>

definition posix_join :: "string \<Rightarrow> string \<Rightarrow> string" where
  "posix_join a b =
     (if b \<noteq> [] \<and> hd b = sep then b
      else if a = [] \<or> last a = sep then a @ b
      else a @ sep # b)"

text \<open>
  \<^verbatim>\<open>os.path.dirname(p)\<close>: the part up to and including the last slash
  (\<^verbatim>\<open>p[:p.rfind('/') + 1]\<close>), with its trailing slashes stripped unless it consists
  of slashes only.
\<close>

definition dirname :: "string \<Rightarrow> string" where
  "dirname p =
     (let i = length p - length (takeWhile (\<lambda>c. c \<noteq> sep) (rev p));
          head = take i p
      in if head \<noteq> [] \<and> head \<noteq> replicate (length head) sep then rstrip_sep head
         else head)"

definition isabs :: "string \<Rightarrow> bool" where
  "isabs p = (p \<noteq> [] \<and> hd p = sep)"

text \<open>
  \<^verbatim>\<open>os.path.normpath(path)\<close>. The loop over the components keeps the list
  \<^verbatim>\<open>new_comps\<close>; \<open>normpath_step\<close> is one round of it.
\<close>

definition normpath_step :: "bool \<Rightarrow> string list \<Rightarrow> string \<Rightarrow> string list" where
  "normpath_step initial_slashes new_comps component =
     (if component = [] \<or> component = ''.'' then new_comps
      else if component \<noteq> ''..'' \<or> (\<not> initial_slashes \<and> new_comps = [])
              \<or> (new_comps \<noteq> [] \<and> last new_comps = ''..'')
           then new_comps @ [component]
      else if new_comps \<noteq> [] then butlast new_comps
      else new_comps)"

definition normpath :: "string \<Rightarrow> string" where
  "normpath path =
     (if path = [] then ''.''
      else
        let initial_slashes =
              (if isabs path then
                 (if take 2 path = [sep, sep] \<and> take 3 path \<noteq> [sep, sep, sep]
                  then 2 else 1 :: nat)
               else 0);
            comps = split_sep path;
            new_comps = foldl (normpath_step (initial_slashes \<noteq> 0)) [] comps;
            p = replicate initial_slashes sep @ join_sep new_comps
        in if p = [] then ''.'' else p)"

text \<open>
  \<^verbatim>\<open>os.path.abspath(path)\<close>; \<open>cwd\<close> is what \<^verbatim>\<open>os.getcwd()\<close> returns.
\<close>

definition abspath :: "string \<Rightarrow> string \<Rightarrow> string" where
  "abspath cwd path = normpath (if isabs path then path else posix_join cwd path)"

text \<open>
  \<^verbatim>\<open>os.path.commonprefix([xs, ys])\<close> on two lists of components: their longest
  common prefix.
\<close>

fun commonprefix :: "'a list \<Rightarrow> 'a list \<Rightarrow> 'a list" where
  "commonprefix (x # xs) (y # ys) = (if x = y then x # commonprefix xs ys else [])"
| "commonprefix _ _ = []"

text \<open>The exceptions the script names or lets through.\<close>

datatype os_error = PermissionError | FileNotFoundError | OtherOSError

datatype py_exception = OSError os_error | ValueError

text \<open>
  What can end the program with a traceback: an exception that left
  \<^verbatim>\<open>walk_directory\<close> or \<^verbatim>\<open>os.getcwd\<close>, the \<^verbatim>\<open>RecursionError\<close> of the interpreter
  when calls nest too deep, and the \<^verbatim>\<open>UnicodeEncodeError\<close> of \<^verbatim>\<open>print\<close> when
  \<^verbatim>\<open>sys.stdout\<close> cannot encode the text.
\<close>

datatype uncaught = Raised py_exception | RecursionError | UnicodeEncodeError

text \<open>
  \<^verbatim>\<open>os.path.relpath(path, start)\<close>: raises \<^verbatim>\<open>ValueError\<close> on the empty path;
  otherwise it climbs from \<open>start\<close> to the common ancestor and descends to \<open>path\<close>.
\<close>

definition relpath :: "string \<Rightarrow> string \<Rightarrow> string \<Rightarrow> py_exception + string" where
  "relpath cwd path start =
     (if path = [] then Inl ValueError
      else
        let start_tail = lstrip_sep (abspath cwd start);
            path_tail = lstrip_sep (abspath cwd path);
            start_list = (if start_tail = [] then [] else split_sep start_tail);
            path_list = (if path_tail = [] then [] else split_sep path_tail);
            i = length (commonprefix start_list path_list);
            rel_list = replicate (length start_list - i) ''..'' @ drop i path_list
        in if rel_list = [] then Inr ''.'' else Inr (join_sep rel_list))"

section \<open>The file system as the script sees it\<close>

text \<open>
  The script reads the file system through \<^verbatim>\<open>os.listdir\<close> and \<^verbatim>\<open>os.path.isdir\<close>
  only. A node is what these calls answer at one path:
  \<^item> \<open>File\<close>: \<^verbatim>\<open>os.path.isdir\<close> is false (a regular file or any other object that is
    not a directory);
  \<^item> \<open>Dir items\<close>: a directory; \<^verbatim>\<open>os.listdir\<close> returns the names of \<open>items\<close>, in
    this order, each with the node found under that name;
  \<^item> \<open>Unlistable e\<close>: a directory for which \<^verbatim>\<open>os.listdir\<close> raises the error \<open>e\<close>.
\<close>

datatype fsnode =
    File
  | Dir "(string \<times> fsnode) list"
  | Unlistable os_error

definition isdir :: "fsnode \<Rightarrow> bool" where
  "isdir node = (node \<noteq> File)"

text \<open>A record of the output list: \<^verbatim>\<open>{"folder": ..., "name": ...}\<close>.\<close>

record file_record =
  folder :: string
  name :: string

text \<open>
  The lines the script prints on \<^verbatim>\<open>sys.stderr\<close>, one constructor for each message,
  with the path the message names. \<open>Traceback\<close> is what the interpreter prints for
  an exception nobody caught.
\<close>

datatype diagnostic =
    WarnDirNoPermission string
  | ErrDirNotFound string
  | WarnNoPermission string
  | WarnAccess string os_error
  | ErrRootNotFound string
  | ErrRootNotDir string
  | Traceback uncaught

section \<open>The script\<close>

text \<open>\<^verbatim>\<open>should_skip_directory(dir_name, base_path)\<close>.\<close>

definition should_skip_directory :: "string \<Rightarrow> string \<Rightarrow> bool" where
  "should_skip_directory dir_name base_path =
     (if lower dir_name = ''images'' then True
      else if dir_name = ''.git'' then True
      else False)"

text \<open>
  \<^verbatim>\<open>should_include_file(file_path, root_dir)\<close>. The exception of
  \<^verbatim>\<open>os.path.relpath\<close> passes through.
\<close>

definition should_include_file :: "string \<Rightarrow> string \<Rightarrow> string \<Rightarrow> py_exception + bool" where
  "should_include_file cwd file_path root_dir =
     (case relpath cwd file_path root_dir of
        Inl e \<Rightarrow> Inl e
      | Inr rel_path \<Rightarrow>
          if dirname rel_path = ''.'' then Inr False
          else if ''images'' \<in> set (split_sep rel_path) then Inr False
          else Inr True)"

text \<open>
  \<^verbatim>\<open>walk_directory(dir_path, base, root_dir)\<close>, with the node that stands at
  \<open>dir_path\<close>. The value is what the call printed on \<^verbatim>\<open>sys.stderr\<close>, and either
  the exception it raised or the list it returned. \<open>walk_items\<close> is the
  \<^verbatim>\<open>for item in items\<close> loop; it carries \<^verbatim>\<open>results\<close> and the lines printed so
  far. Listing a path that is not a directory raises \<^verbatim>\<open>NotADirectoryError\<close>, an
  \<^verbatim>\<open>OSError\<close> that is neither of the two the function catches.
\<close>

function
  walk_directory ::
    "string \<Rightarrow> fsnode \<Rightarrow> string \<Rightarrow> string \<Rightarrow> string option
      \<Rightarrow> diagnostic list \<times> (py_exception + file_record list)"
and
  walk_items ::
    "string \<Rightarrow> (string \<times> fsnode) list \<Rightarrow> string \<Rightarrow> string \<Rightarrow> string
      \<Rightarrow> file_record list \<Rightarrow> diagnostic list
      \<Rightarrow> diagnostic list \<times> (py_exception + file_record list)"
where
  "walk_directory cwd File dir_path base root_dir = ([], Inl (OSError OtherOSError))"
| "walk_directory cwd (Unlistable e) dir_path base root_dir =
     (if e = PermissionError then ([WarnDirNoPermission dir_path], Inr [])
      else if e = FileNotFoundError then ([ErrDirNotFound dir_path], Inr [])
      else ([], Inl (OSError e)))"
| "walk_directory cwd (Dir items) dir_path base root_dir =
     walk_items cwd items dir_path base
       (case root_dir of None \<Rightarrow> dir_path | Some r \<Rightarrow> r) [] []"
| "walk_items cwd [] dir_path base root_dir results err = (err, Inr results)"
| "walk_items cwd ((item, node) # rest) dir_path base root_dir results err =
     (let item_path = posix_join dir_path item;
          rel_path = replace_backslash (posix_join base item)
      in
        if isdir node then
          if should_skip_directory item base then
            walk_items cwd rest dir_path base root_dir results err
          else
            (case walk_directory cwd node item_path rel_path (Some root_dir) of
               (printed, Inr sub) \<Rightarrow>
                 walk_items cwd rest dir_path base root_dir (results @ sub) (err @ printed)
             | (printed, Inl (OSError PermissionError)) \<Rightarrow>
                 walk_items cwd rest dir_path base root_dir results
                   (err @ printed @ [WarnNoPermission item_path])
             | (printed, Inl (OSError e)) \<Rightarrow>
                 walk_items cwd rest dir_path base root_dir results
                   (err @ printed @ [WarnAccess item_path e])
             | (printed, Inl ValueError) \<Rightarrow> (err @ printed, Inl ValueError))
        else
          (case should_include_file cwd item_path root_dir of
             Inr False \<Rightarrow> walk_items cwd rest dir_path base root_dir results err
           | Inr True \<Rightarrow>
               walk_items cwd rest dir_path base root_dir
                 (results @ [\<lparr>folder = replace_backslash base, name = item\<rparr>]) err
           | Inl (OSError PermissionError) \<Rightarrow>
               walk_items cwd rest dir_path base root_dir results
                 (err @ [WarnNoPermission item_path])
           | Inl (OSError e) \<Rightarrow>
               walk_items cwd rest dir_path base root_dir results
                 (err @ [WarnAccess item_path e])
           | Inl ValueError \<Rightarrow> (err, Inl ValueError)))"
  by pat_completeness auto
termination
  by (relation "measure (\<lambda>x. case x of
         Inl (cwd, node, rest) \<Rightarrow> size node
       | Inr (cwd, items, rest) \<Rightarrow> size_list (size_prod (\<lambda>_. 0) size) items)") auto

text \<open>
  What the run takes from the interpreter and its surroundings:
  \<^item> \<open>getcwd\<close>: what \<^verbatim>\<open>os.getcwd()\<close> answers, the working directory or the error it
    raises (\<^verbatim>\<open>FileNotFoundError\<close> when the directory was removed);
  \<^item> \<open>recursion_limit\<close>: how many calls of \<^verbatim>\<open>walk_directory\<close> the interpreter lets
    nest; one call more raises \<^verbatim>\<open>RecursionError\<close>;
  \<^item> \<open>stdout_encodes\<close>: the strings the encoding of \<^verbatim>\<open>sys.stdout\<close> can encode.
\<close>

record runtime =
  getcwd :: "os_error + string"
  recursion_limit :: nat
  stdout_encodes :: "string \<Rightarrow> bool"

text \<open>
  \<^verbatim>\<open>walk_directory\<close> as the interpreter runs it: the same function, with the number
  \<open>depth\<close> of calls that may still nest. A call made when none is left raises
  \<^verbatim>\<open>RecursionError\<close>, which is no \<^verbatim>\<open>OSError\<close>: no handler of the script catches it,
  and it leaves every enclosing loop and call.
\<close>

function
  walk_directory_limited ::
    "nat \<Rightarrow> string \<Rightarrow> fsnode \<Rightarrow> string \<Rightarrow> string \<Rightarrow> string option
      \<Rightarrow> diagnostic list \<times> (uncaught + file_record list)"
and
  walk_items_limited ::
    "nat \<Rightarrow> string \<Rightarrow> (string \<times> fsnode) list \<Rightarrow> string \<Rightarrow> string \<Rightarrow> string
      \<Rightarrow> file_record list \<Rightarrow> diagnostic list
      \<Rightarrow> diagnostic list \<times> (uncaught + file_record list)"
where
  "walk_directory_limited depth cwd File dir_path base root_dir =
     (if depth = 0 then ([], Inl RecursionError)
      else ([], Inl (Raised (OSError OtherOSError))))"
| "walk_directory_limited depth cwd (Unlistable e) dir_path base root_dir =
     (if depth = 0 then ([], Inl RecursionError)
      else if e = PermissionError then ([WarnDirNoPermission dir_path], Inr [])
      else if e = FileNotFoundError then ([ErrDirNotFound dir_path], Inr [])
      else ([], Inl (Raised (OSError e))))"
| "walk_directory_limited depth cwd (Dir items) dir_path base root_dir =
     (if depth = 0 then ([], Inl RecursionError)
      else walk_items_limited (depth - 1) cwd items dir_path base
             (case root_dir of None \<Rightarrow> dir_path | Some r \<Rightarrow> r) [] [])"
| "walk_items_limited depth cwd [] dir_path base root_dir results err = (err, Inr results)"
| "walk_items_limited depth cwd ((item, node) # rest) dir_path base root_dir results err =
     (let item_path = posix_join dir_path item;
          rel_path = replace_backslash (posix_join base item)
      in
        if isdir node then
          if should_skip_directory item base then
            walk_items_limited depth cwd rest dir_path base root_dir results err
          else
            (case walk_directory_limited depth cwd node item_path rel_path (Some root_dir) of
               (printed, Inr sub) \<Rightarrow>
                 walk_items_limited depth cwd rest dir_path base root_dir
                   (results @ sub) (err @ printed)
             | (printed, Inl (Raised (OSError PermissionError))) \<Rightarrow>
                 walk_items_limited depth cwd rest dir_path base root_dir results
                   (err @ printed @ [WarnNoPermission item_path])
             | (printed, Inl (Raised (OSError e))) \<Rightarrow>
                 walk_items_limited depth cwd rest dir_path base root_dir results
                   (err @ printed @ [WarnAccess item_path e])
             | (printed, Inl e) \<Rightarrow> (err @ printed, Inl e))
        else
          (case should_include_file cwd item_path root_dir of
             Inr False \<Rightarrow> walk_items_limited depth cwd rest dir_path base root_dir results err
           | Inr True \<Rightarrow>
               walk_items_limited depth cwd rest dir_path base root_dir
                 (results @ [\<lparr>folder = replace_backslash base, name = item\<rparr>]) err
           | Inl (OSError PermissionError) \<Rightarrow>
               walk_items_limited depth cwd rest dir_path base root_dir results
                 (err @ [WarnNoPermission item_path])
           | Inl (OSError e) \<Rightarrow>
               walk_items_limited depth cwd rest dir_path base root_dir results
                 (err @ [WarnAccess item_path e])
           | Inl ValueError \<Rightarrow> (err, Inl (Raised ValueError))))"
  by pat_completeness auto
termination
  by (relation "measure (\<lambda>x. case x of
         Inl (depth, cwd, node, rest) \<Rightarrow> size node
       | Inr (depth, cwd, items, rest) \<Rightarrow> size_list (size_prod (\<lambda>_. 0) size) items)") auto

text \<open>
  \<^verbatim>\<open>os.path.abspath(path)\<close> in \<open>main\<close>: \<^verbatim>\<open>os.getcwd()\<close> is called for a relative path
  only, and its error is caught nowhere.
\<close>

definition abspath_getcwd :: "os_error + string \<Rightarrow> string \<Rightarrow> py_exception + string" where
  "abspath_getcwd answer path =
     (if isabs path then Inr (normpath path)
      else case answer of
             Inl e \<Rightarrow> Inl (OSError e)
           | Inr cwd \<Rightarrow> Inr (normpath (posix_join cwd path)))"

text \<open>
  The working directory the walk is given. The walk asks for it only through
  \<^verbatim>\<open>os.path.relpath\<close>, on the absolute paths it builds below the absolute scan root,
  and \<^verbatim>\<open>os.path.abspath\<close> does not call \<^verbatim>\<open>os.getcwd()\<close> for those: the empty
  string that stands for a failing \<^verbatim>\<open>os.getcwd()\<close> is never read.
\<close>

definition working_directory :: "runtime \<Rightarrow> string" where
  "working_directory rt = (case getcwd rt of Inr cwd \<Rightarrow> cwd | Inl e \<Rightarrow> [])"

text \<open>
  \<^verbatim>\<open>print(json.dumps(files, ensure_ascii=False, indent=2))\<close>. Besides ASCII
  punctuation the text holds the folder and the name of every record, unescaped;
  \<^verbatim>\<open>print\<close> encodes the whole text before it writes, and raises
  \<^verbatim>\<open>UnicodeEncodeError\<close> when \<^verbatim>\<open>sys.stdout\<close> cannot encode one of them.
\<close>

definition print_json :: "runtime \<Rightarrow> file_record list \<Rightarrow> uncaught + file_record list" where
  "print_json rt files =
     (if list_all (\<lambda>r. stdout_encodes rt (folder r) \<and> stdout_encodes rt (name r)) files
      then Inr files
      else Inl UnicodeEncodeError)"

text \<open>
  What a run of the program leaves behind: the exit code, the list printed on
  \<^verbatim>\<open>sys.stdout\<close> (\<open>None\<close> when nothing was printed) and the lines on
  \<^verbatim>\<open>sys.stderr\<close>. The list stands for its JSON text.
\<close>

record run =
  exit_code :: int
  stdout :: "file_record list option"
  stderr :: "diagnostic list"

text \<open>
  \<^verbatim>\<open>main()\<close>. \<open>argv\<close> is \<^verbatim>\<open>sys.argv\<close>; \<open>root\<close> is the node at the path the
  program is given (\<open>None\<close> when \<^verbatim>\<open>os.path.exists\<close> is false). An exception that
  leaves \<^verbatim>\<open>os.path.abspath\<close>, \<^verbatim>\<open>walk_directory\<close> or \<^verbatim>\<open>print\<close> is caught nowhere:
  the interpreter prints the traceback and exits with code 1.
\<close>

definition main :: "runtime \<Rightarrow> string list \<Rightarrow> fsnode option \<Rightarrow> run" where
  "main rt argv root =
     (let root_dir = (if length argv > 1 then argv ! 1 else ''.'') in
      case root of
        None \<Rightarrow> \<lparr>exit_code = 1, stdout = None, stderr = [ErrRootNotFound root_dir]\<rparr>
      | Some node \<Rightarrow>
          if \<not> isdir node then
            \<lparr>exit_code = 1, stdout = None, stderr = [ErrRootNotDir root_dir]\<rparr>
          else
            (case abspath_getcwd (getcwd rt) root_dir of
               Inl e \<Rightarrow> \<lparr>exit_code = 1, stdout = None, stderr = [Traceback (Raised e)]\<rparr>
             | Inr root_dir \<Rightarrow>
                 (case walk_directory_limited (recursion_limit rt) (working_directory rt)
                         node root_dir [] (Some root_dir) of
                    (printed, Inl e) \<Rightarrow>
                      \<lparr>exit_code = 1, stdout = None, stderr = printed @ [Traceback e]\<rparr>
                  | (printed, Inr files) \<Rightarrow>
                      (case print_json rt files of
                         Inl e \<Rightarrow>
                           \<lparr>exit_code = 1, stdout = None, stderr = printed @ [Traceback e]\<rparr>
                       | Inr printed_list \<Rightarrow>
                           \<lparr>exit_code = 0, stdout = Some printed_list, stderr = printed\<rparr>))))"

section \<open>One round of the loop\<close>

text \<open>
  What one round of the \<^verbatim>\<open>for item in items\<close> loop does with its entry, read off
  the loop body: whether an exception leaves the loop (only \<^verbatim>\<open>ValueError\<close> is not
  caught there), the records the round adds to \<^verbatim>\<open>results\<close>, and the lines it
  prints. A directory that is skipped adds nothing; a directory that is entered adds
  the records its own walk returned; a file adds its record when
  \<open>should_include_file\<close> admits it.
\<close>

definition entry_raises :: "string \<Rightarrow> string \<Rightarrow> string \<Rightarrow> string \<Rightarrow> string \<times> fsnode \<Rightarrow> bool" where
  "entry_raises cwd dir_path base root_dir entry =
     (case entry of (item, node) \<Rightarrow>
        if isdir node then
          \<not> should_skip_directory item base \<and>
          snd (walk_directory cwd node (posix_join dir_path item)
                 (replace_backslash (posix_join base item)) (Some root_dir)) = Inl ValueError
        else should_include_file cwd (posix_join dir_path item) root_dir = Inl ValueError)"

definition entry_records ::
  "string \<Rightarrow> string \<Rightarrow> string \<Rightarrow> string \<Rightarrow> string \<times> fsnode \<Rightarrow> file_record list" where
  "entry_records cwd dir_path base root_dir entry =
     (case entry of (item, node) \<Rightarrow>
        if isdir node then
          if should_skip_directory item base then []
          else
            (case snd (walk_directory cwd node (posix_join dir_path item)
                         (replace_backslash (posix_join base item)) (Some root_dir)) of
               Inr sub \<Rightarrow> sub
             | Inl e \<Rightarrow> [])
        else if should_include_file cwd (posix_join dir_path item) root_dir = Inr True
          then [\<lparr>folder = replace_backslash base, name = item\<rparr>]
          else [])"

definition caught :: "string \<Rightarrow> py_exception \<Rightarrow> diagnostic list" where
  "caught item_path e =
     (case e of
        OSError PermissionError \<Rightarrow> [WarnNoPermission item_path]
      | OSError x \<Rightarrow> [WarnAccess item_path x]
      | ValueError \<Rightarrow> [])"

definition entry_printed ::
  "string \<Rightarrow> string \<Rightarrow> string \<Rightarrow> string \<Rightarrow> string \<times> fsnode \<Rightarrow> diagnostic list" where
  "entry_printed cwd dir_path base root_dir entry =
     (case entry of (item, node) \<Rightarrow>
        if isdir node then
          if should_skip_directory item base then []
          else
            (case walk_directory cwd node (posix_join dir_path item)
                    (replace_backslash (posix_join base item)) (Some root_dir) of
               (printed, Inr sub) \<Rightarrow> printed
             | (printed, Inl e) \<Rightarrow> printed @ caught (posix_join dir_path item) e)
        else
          (case should_include_file cwd (posix_join dir_path item) root_dir of
             Inr b \<Rightarrow> []
           | Inl e \<Rightarrow> caught (posix_join dir_path item) e))"


section \<open>Notions used in the statements\<close>

text \<open>
  The scan root \<open>main\<close> hands to \<open>walk_directory\<close>: the absolute path of the
  command-line argument, or of the current directory when there is none.
\<close>

definition scan_root :: "string \<Rightarrow> string list \<Rightarrow> string" where
  "scan_root cwd argv = abspath cwd (if length argv > 1 then argv ! 1 else ''.'')"

text \<open>The list a call returned; the empty list when it raised instead.\<close>

definition records_of :: "diagnostic list \<times> (py_exception + file_record list) \<Rightarrow> file_record list" where
  "records_of outcome = (case snd outcome of Inr rs \<Rightarrow> rs | Inl e \<Rightarrow> [])"

text \<open>
  \<open>file_at t chain item\<close>: going down from the directory \<open>t\<close> through the
  directories named in \<open>chain\<close>, one finds an entry \<open>item\<close> that is not a directory.
\<close>

inductive file_at :: "fsnode \<Rightarrow> string list \<Rightarrow> string \<Rightarrow> bool" where
  file_here: "(item, File) \<in> set items \<Longrightarrow> file_at (Dir items) [] item"
| file_below: "(d, sub) \<in> set items \<Longrightarrow> file_at sub chain item \<Longrightarrow>
               file_at (Dir items) (d # chain) item"

text \<open>
  The value of \<^verbatim>\<open>base\<close> after going down through \<open>chain\<close>: each recursive
  call passes \<^verbatim>\<open>os.path.join(base, item).replace('\\', '/')\<close>.
\<close>

definition descend_base :: "string \<Rightarrow> string list \<Rightarrow> string" where
  "descend_base base chain = foldl (\<lambda>b d. replace_backslash (posix_join b d)) base chain"

text \<open>
  A file is admitted when the walk reaches it and keeps it: no directory on the way
  down is skipped, and \<open>should_include_file\<close> answers \<^verbatim>\<open>True\<close> for the path the
  walk builds for it.
\<close>

definition admitted :: "string \<Rightarrow> string \<Rightarrow> string \<Rightarrow> string list \<Rightarrow> string \<Rightarrow> bool" where
  "admitted cwd dir_path root_dir chain item =
     ((\<forall>d \<in> set chain. \<not> should_skip_directory d [])
      \<and> should_include_file cwd (posix_join (foldl posix_join dir_path chain) item) root_dir = Inr True)"

text \<open>\<open>all_names P t\<close>: every name in every listing of the tree satisfies \<open>P\<close>.\<close>

function all_names :: "(string \<Rightarrow> bool) \<Rightarrow> fsnode \<Rightarrow> bool" where
  "all_names P (Dir items) = (\<forall>(n, t) \<in> set items. P n \<and> all_names P t)"
| "all_names P File = True"
| "all_names P (Unlistable e) = True"
  by pat_completeness auto
termination
  by (relation "measure (\<lambda>(P, t). size t)")
    (auto simp: less_Suc_eq_le intro!: size_list_estimation')

text \<open>
  Names as \<^verbatim>\<open>os.listdir\<close> gives them are not empty and hold no slash. A plain name
  moreover does not end with a backslash; a clean name holds no backslash at all.
\<close>

definition plain_name :: "string \<Rightarrow> bool" where
  "plain_name n = (n \<noteq> [] \<and> sep \<notin> set n \<and> last n \<noteq> backslash)"

definition clean_name :: "string \<Rightarrow> bool" where
  "clean_name n = (n \<noteq> [] \<and> sep \<notin> set n \<and> backslash \<notin> set n)"

text \<open>
  Two views of one unchanged tree: the same entries under the same names in every
  directory, each listing possibly in another order (the order \<^verbatim>\<open>os.listdir\<close>
  returns is arbitrary).
\<close>

inductive same_tree :: "fsnode \<Rightarrow> fsnode \<Rightarrow> bool" where
  same_File: "same_tree File File"
| same_Unlistable: "same_tree (Unlistable e) (Unlistable e)"
| same_Dir: "list_all2 (\<lambda>a b. fst a = fst b \<and> same_tree (snd a) (snd b)) items items' \<Longrightarrow>
             mset items' = mset items'' \<Longrightarrow> same_tree (Dir items) (Dir items'')"

text \<open>
  The tree without its skipped directories: every directory entry whose name
  \<open>should_skip_directory\<close> rejects is taken out of the listing that holds it, with
  all that is below it.
\<close>

function prune :: "fsnode \<Rightarrow> fsnode" where
  "prune (Dir items) =
     Dir (map (\<lambda>(n, t). (n, prune t))
            (filter (\<lambda>(n, t). \<not> (isdir t \<and> should_skip_directory n [])) items))"
| "prune File = File"
| "prune (Unlistable e) = Unlistable e"
  by pat_completeness auto
termination
  by (relation "measure size")
    (auto simp: less_Suc_eq_le intro!: size_list_estimation')

text \<open>
  A name \<^verbatim>\<open>os.listdir\<close> can return: not empty, without a slash, and neither
  \<^verbatim>\<open>.\<close> nor \<^verbatim>\<open>..\<close>.
\<close>

definition listed_name :: "string \<Rightarrow> bool" where
  "listed_name n = (n \<noteq> [] \<and> sep \<notin> set n \<and> n \<noteq> ''.'' \<and> n \<noteq> ''..'')"

text \<open>
  The shape of a normalised absolute path: \<open>k\<close> slashes, then the components joined
  by slashes.
\<close>

definition rooted :: "nat \<Rightarrow> string list \<Rightarrow> string" where
  "rooted k comps = replicate k sep @ join_sep comps"

text \<open>
  The calls of \<^verbatim>\<open>walk_directory\<close> that nest when a node is walked: one for the node
  itself, and below a directory as many more as the deepest of the directories the
  loop enters (the entries that are directories and are not skipped).
\<close>

function nesting :: "fsnode \<Rightarrow> nat" where
  "nesting (Dir items) =
     Suc (foldr max
            (map (\<lambda>(n, t). if isdir t \<and> \<not> should_skip_directory n [] then nesting t else 0) items)
            0)"
| "nesting File = 1"
| "nesting (Unlistable e) = 1"
  by pat_completeness auto
termination
  by (relation "measure size")
    (auto simp: less_Suc_eq_le intro!: size_list_estimation')

text \<open>
  \<open>node_at t chain node\<close>: going down from the directory \<open>t\<close> through the names
  in \<open>chain\<close>, the last of them the entry's own, one finds \<open>node\<close>.
\<close>

inductive node_at :: "fsnode \<Rightarrow> string list \<Rightarrow> fsnode \<Rightarrow> bool" where
  node_here: "(d, node) \<in> set items \<Longrightarrow> node_at (Dir items) [d] node"
| node_below: "(d, sub) \<in> set items \<Longrightarrow> node_at sub chain node \<Longrightarrow>
               node_at (Dir items) (d # chain) node"

text \<open>
  A run in which only the script's own work can fail: the working directory is
  there, a thousand calls may nest, and \<^verbatim>\<open>sys.stdout\<close> encodes every string.
\<close>

definition usual_runtime :: "string \<Rightarrow> runtime" where
  "usual_runtime cwd =
     \<lparr>getcwd = Inr cwd, recursion_limit = 1000, stdout_encodes = (\<lambda>s. True)\<rparr>"

text \<open>The strings an ASCII \<^verbatim>\<open>sys.stdout\<close> can encode.\<close>

definition ascii :: "string \<Rightarrow> bool" where
  "ascii s = list_all (\<lambda>c. (of_char c :: nat) < 128) s"

text \<open>The path \<open>main\<close> takes from the command line.\<close>

definition root_argument :: "string list \<Rightarrow> string" where
  "root_argument argv = (if length argv > 1 then argv ! 1 else ''.'')"

section \<open>Properties\<close>

subsection \<open>The loop as a concatenation\<close>

lemma walk_items_step:
  "walk_items cwd (entry # rest) dir_path base root_dir results err =
     (if entry_raises cwd dir_path base root_dir entry
      then (err @ entry_printed cwd dir_path base root_dir entry, Inl ValueError)
      else walk_items cwd rest dir_path base root_dir
             (results @ entry_records cwd dir_path base root_dir entry)
             (err @ entry_printed cwd dir_path base root_dir entry))"
  by (cases entry)
    (auto simp: entry_raises_def entry_records_def entry_printed_def caught_def Let_def
      split: prod.splits sum.splits py_exception.splits os_error.splits bool.splits)

lemma posix_join_nonempty: "a \<noteq> [] \<Longrightarrow> posix_join a b \<noteq> []"
  by (auto simp: posix_join_def)

lemma should_include_file_no_raise:
  "file_path \<noteq> [] \<Longrightarrow> \<exists>b. should_include_file cwd file_path root_dir = Inr b"
  by (auto simp: should_include_file_def relpath_def Let_def)

lemma walk_items_no_ValueError:
  assumes "\<forall>entry \<in> set items. \<forall>dp b rd. dp \<noteq> [] \<longrightarrow>
             snd (walk_directory cwd (snd entry) dp b rd) \<noteq> Inl ValueError"
    and "dir_path \<noteq> []"
  shows "walk_items cwd items dir_path base root_dir results err =
           (err @ concat (map (entry_printed cwd dir_path base root_dir) items),
            Inr (results @ concat (map (entry_records cwd dir_path base root_dir) items)))"
  using assms
proof (induction items arbitrary: results err)
  case Nil
  then show ?case by simp
next
  case (Cons entry rest)
  obtain item node where e: "entry = (item, node)" by (cases entry)
  have "snd (walk_directory cwd node (posix_join dir_path item) b rd) \<noteq> Inl ValueError" for b rd
    using Cons.prems by (simp add: e posix_join_nonempty)
  then have "\<not> entry_raises cwd dir_path base root_dir entry"
    using Cons.prems(2)
      should_include_file_no_raise[of "posix_join dir_path item" cwd root_dir]
    by (auto simp: e entry_raises_def posix_join_nonempty)
  then show ?case
    using Cons by (simp add: walk_items_step)
qed

lemma walk_directory_no_ValueError:
  "dir_path \<noteq> [] \<Longrightarrow> snd (walk_directory cwd node dir_path base root_dir) \<noteq> Inl ValueError"
proof (induction node arbitrary: dir_path base root_dir)
  case File
  then show ?case by simp
next
  case (Dir items)
  have "\<forall>entry \<in> set items. \<forall>dp b rd. dp \<noteq> [] \<longrightarrow>
             snd (walk_directory cwd (snd entry) dp b rd) \<noteq> Inl ValueError"
    using Dir.IH by (auto simp: snds.simps)
  from walk_items_no_ValueError[OF this Dir.prems]
  show ?case by simp
next
  case (Unlistable e)
  then show ?case by simp
qed

lemma walk_items_eq:
  "dir_path \<noteq> [] \<Longrightarrow>
   walk_items cwd items dir_path base root_dir results err =
     (err @ concat (map (entry_printed cwd dir_path base root_dir) items),
      Inr (results @ concat (map (entry_records cwd dir_path base root_dir) items)))"
  by (rule walk_items_no_ValueError) (auto simp: walk_directory_no_ValueError)


subsection \<open>The skip decision\<close>

lemma skip_base_irrelevant:
  "should_skip_directory dir_name b = should_skip_directory dir_name []"
  by (simp add: should_skip_directory_def)

text \<open>
  C9. The answer of \<open>should_skip_directory\<close> depends on the directory name only: two
  calls with the same name and any two base paths agree, so the decision is the same
  at every depth and place of the tree.
\<close>

theorem should_skip_directory_ignores_base_path:
  "should_skip_directory dir_name base_path1 = should_skip_directory dir_name base_path2"
  by (simp add: should_skip_directory_def)

subsection \<open>The default scan root\<close>

text \<open>
  C10. Calling \<open>walk_directory\<close> without \<open>root_dir\<close> (the value \<open>None\<close>) is the same
  as passing the visited directory as the root: both calls print the same lines and
  return the same list, or raise the same exception.
\<close>

theorem walk_directory_default_root:
  "walk_directory cwd node dir_path base None =
     walk_directory cwd node dir_path base (Some dir_path)"
  by (cases node) simp_all

subsection \<open>The driver\<close>

lemma normpath_nonempty: "normpath p \<noteq> []"
  by (simp add: normpath_def Let_def)

lemma scan_root_nonempty: "scan_root cwd argv \<noteq> []"
  by (simp add: scan_root_def abspath_def normpath_nonempty)

lemma lower_plain_names:
  "lower ''sub'' = ''sub''" "lower ''locked'' = ''locked''"
  "lower ''deep'' = ''deep''" "lower ''docs'' = ''docs''"
  by code_simp+

lemma not_skip_plain_names:
  "\<not> should_skip_directory ''sub'' b" "\<not> should_skip_directory ''locked'' b"
  "\<not> should_skip_directory ''deep'' b" "\<not> should_skip_directory ''docs'' b"
  by (simp_all add: should_skip_directory_def lower_plain_names)

text \<open>
  C7. The list a directory's walk returns is the concatenation, in listing order, of
  what each entry contributes: nothing for a skipped directory, the whole list of its
  own walk for a directory that is entered (all records of the subtree, in one
  block, before any later sibling), and at most one record for a file. The path of a
  directory that was listed is never empty.
\<close>

theorem walk_directory_depth_first:
  "dir_path \<noteq> [] \<Longrightarrow>
   snd (walk_directory cwd (Dir items) dir_path base (Some root_dir)) =
     Inr (concat (map (entry_records cwd dir_path base root_dir) items))"
  by (simp add: walk_items_eq)

theorem walk_directory_depth_first_witness:
  "''/r'' \<noteq> [] \<and>
   snd (walk_directory ''/home''
          (Dir [(''sub'', Dir [(''b.txt'', File), (''deep'', Dir [(''e.txt'', File)])]),
                (''docs'', Dir [(''c.txt'', File)])])
          ''/r'' [] (Some ''/r'')) =
     Inr (concat (map (entry_records ''/home'' ''/r'' [] ''/r'')
            [(''sub'', Dir [(''b.txt'', File), (''deep'', Dir [(''e.txt'', File)])]),
             (''docs'', Dir [(''c.txt'', File)])]))"
  using walk_directory_depth_first[of "''/r''" "''/home''"
      "[(''sub'', Dir [(''b.txt'', File), (''deep'', Dir [(''e.txt'', File)])]),
        (''docs'', Dir [(''c.txt'', File)])]" "[]" "''/r''"]
  by blast

lemma depth_first_example:
  "snd (walk_directory ''/home''
          (Dir [(''sub'', Dir [(''b.txt'', File), (''deep'', Dir [(''e.txt'', File)])]),
                (''docs'', Dir [(''c.txt'', File)])])
          ''/r'' [] (Some ''/r'')) =
     Inr [\<lparr>folder = ''sub'', name = ''b.txt''\<rparr>, \<lparr>folder = ''sub/deep'', name = ''e.txt''\<rparr>,
          \<lparr>folder = ''docs'', name = ''c.txt''\<rparr>]"
  by code_simp

lemma entry_records_Unlistable:
  "entry_records cwd dir_path base root_dir (item, Unlistable e) = []"
  by (cases e) (simp_all add: entry_records_def isdir_def)

lemma entry_printed_Unlistable:
  "\<not> should_skip_directory item base \<Longrightarrow>
   entry_printed cwd dir_path base root_dir (item, Unlistable e) =
     (if e = PermissionError then [WarnDirNoPermission (posix_join dir_path item)]
      else if e = FileNotFoundError then [ErrDirNotFound (posix_join dir_path item)]
      else [WarnAccess (posix_join dir_path item) e])"
  by (cases e) (simp_all add: entry_printed_def isdir_def caught_def)

text \<open>
  C1. The claim says that a file directly under the scan root is never emitted and
  that every emitted folder is non-empty. The script does not behave so: for a root
  that holds only the file \<^verbatim>\<open>a.txt\<close> it prints one record, with the empty folder.
  The relative path of such a file is \<^verbatim>\<open>a.txt\<close>, and \<^verbatim>\<open>os.path.dirname\<close> of it
  is the empty string, not the dot the script compares it with.
\<close>

theorem root_level_file_is_emitted:
  "main (usual_runtime ''/home'') [''generateFileTree.py'', ''/r''] (Some (Dir [(''a.txt'', File)])) =
     \<lparr>exit_code = 0, stdout = Some [\<lparr>folder = [], name = ''a.txt''\<rparr>], stderr = []\<rparr>
   \<and> relpath ''/home'' ''/r/a.txt'' ''/r'' = Inr ''a.txt''
   \<and> dirname ''a.txt'' = []
   \<and> should_include_file ''/home'' ''/r/a.txt'' ''/r'' = Inr True"
  by code_simp

subsection \<open>Emitted records and admitted files\<close>

lemma records_of_Dir:
  "dir_path \<noteq> [] \<Longrightarrow>
   records_of (walk_directory cwd (Dir items) dir_path base (Some root_dir)) =
     concat (map (entry_records cwd dir_path base root_dir) items)"
  by (simp add: records_of_def walk_items_eq)

lemma records_of_walk_items:
  "dir_path \<noteq> [] \<Longrightarrow>
   records_of (walk_items cwd items dir_path base root_dir [] []) =
     concat (map (entry_records cwd dir_path base root_dir) items)"
  by (simp add: records_of_def walk_items_eq)

lemma entry_records_as_records_of:
  "entry_records cwd dir_path base root_dir (item, node) =
     (if isdir node then
        if should_skip_directory item base then []
        else records_of (walk_directory cwd node (posix_join dir_path item)
               (replace_backslash (posix_join base item)) (Some root_dir))
      else if should_include_file cwd (posix_join dir_path item) root_dir = Inr True
        then [\<lparr>folder = replace_backslash base, name = item\<rparr>]
        else [])"
  by (simp add: entry_records_def records_of_def)

lemma file_at_isdir: "file_at t chain item \<Longrightarrow> isdir t"
  by (cases rule: file_at.cases) (auto simp: isdir_def)

lemma emitted_is_admitted_file:
  "dir_path \<noteq> [] \<Longrightarrow>
   r \<in> set (records_of (walk_directory cwd t dir_path base (Some root_dir))) \<Longrightarrow>
   \<exists>chain. file_at t chain (name r) \<and> admitted cwd dir_path root_dir chain (name r)
     \<and> folder r = replace_backslash (descend_base base chain)"
proof (induction t arbitrary: dir_path base)
  case File
  then show ?case by (simp add: records_of_def)
next
  case (Unlistable e)
  then show ?case by (cases e) (simp_all add: records_of_def)
next
  case (Dir items)
  from Dir.prems obtain item node where
    mem: "(item, node) \<in> set items" and
    r: "r \<in> set (entry_records cwd dir_path base root_dir (item, node))"
    by (auto simp: records_of_walk_items)
  show ?case
  proof (cases "isdir node")
    case False
    then have node: "node = File" by (simp add: isdir_def)
    from r False have inc: "should_include_file cwd (posix_join dir_path item) root_dir = Inr True"
      and rr: "r = \<lparr>folder = replace_backslash base, name = item\<rparr>"
      by (auto simp: entry_records_as_records_of split: if_splits)
    have "file_at (Dir items) [] (name r)" using mem node rr by (auto intro: file_here)
    moreover have "admitted cwd dir_path root_dir [] (name r)"
      using inc rr by (simp add: admitted_def)
    moreover have "folder r = replace_backslash (descend_base base [])"
      using rr by (simp add: descend_base_def)
    ultimately show ?thesis by blast
  next
    case True
    with r have ns: "\<not> should_skip_directory item base"
      and sub: "r \<in> set (records_of (walk_directory cwd node (posix_join dir_path item)
               (replace_backslash (posix_join base item)) (Some root_dir)))"
      by (auto simp: entry_records_as_records_of split: if_splits)
    have "node \<in> Basic_BNFs.snds (item, node)" by simp
    from Dir.IH[OF mem this posix_join_nonempty[OF Dir.prems(1)] sub]
    obtain chain where c: "file_at node chain (name r)"
      "admitted cwd (posix_join dir_path item) root_dir chain (name r)"
      "folder r = replace_backslash (descend_base (replace_backslash (posix_join base item)) chain)"
      by blast
    have "file_at (Dir items) (item # chain) (name r)"
      using mem c(1) by (rule file_below)
    moreover have "admitted cwd dir_path root_dir (item # chain) (name r)"
      using c(2) ns by (simp add: admitted_def skip_base_irrelevant[of item base])
    moreover have "folder r = replace_backslash (descend_base base (item # chain))"
      using c(3) by (simp add: descend_base_def)
    ultimately show ?thesis by blast
  qed
qed

lemma admitted_file_is_emitted:
  "file_at t chain item \<Longrightarrow> dir_path \<noteq> [] \<Longrightarrow> admitted cwd dir_path root_dir chain item \<Longrightarrow>
   \<lparr>folder = replace_backslash (descend_base base chain), name = item\<rparr>
     \<in> set (records_of (walk_directory cwd t dir_path base (Some root_dir)))"
proof (induction arbitrary: dir_path base rule: file_at.induct)
  case (file_here item items)
  then have "\<lparr>folder = replace_backslash base, name = item\<rparr>
      \<in> set (entry_records cwd dir_path base root_dir (item, File))"
    by (simp add: entry_records_as_records_of isdir_def admitted_def)
  with file_here show ?case
    by (auto simp: records_of_walk_items descend_base_def)
next
  case (file_below d sub items chain item)
  have ns: "\<not> should_skip_directory d base"
    using file_below.prems(2) by (simp add: admitted_def skip_base_irrelevant[of d base])
  have adm: "admitted cwd (posix_join dir_path d) root_dir chain item"
    using file_below.prems(2) by (simp add: admitted_def)
  have "\<lparr>folder = replace_backslash (descend_base (replace_backslash (posix_join base d)) chain),
         name = item\<rparr>
      \<in> set (records_of (walk_directory cwd sub (posix_join dir_path d)
               (replace_backslash (posix_join base d)) (Some root_dir)))"
    by (rule file_below.IH[OF posix_join_nonempty[OF file_below.prems(1)] adm])
  then have "\<lparr>folder = replace_backslash (descend_base base (d # chain)), name = item\<rparr>
      \<in> set (entry_records cwd dir_path base root_dir (d, sub))"
    using ns file_at_isdir[OF file_below.hyps(2)]
    by (simp add: entry_records_as_records_of descend_base_def)
  with file_below.hyps(1) file_below.prems(1) show ?case
    by (auto simp: records_of_walk_items)
qed

lemma sep_not_backslash: "sep \<noteq> backslash"
  by (simp add: sep_def backslash_def)

lemma replace_backslash_append:
  "replace_backslash (a @ b) = replace_backslash a @ replace_backslash b"
  by (simp add: replace_backslash_def)

lemma replace_backslash_Cons_sep:
  "replace_backslash (sep # b) = sep # replace_backslash b"
  by (simp add: replace_backslash_def)

lemma replace_backslash_idem:
  "replace_backslash (replace_backslash s) = replace_backslash s"
  by (simp add: replace_backslash_def sep_not_backslash)

lemma replace_backslash_clean: "backslash \<notin> set s \<Longrightarrow> replace_backslash s = s"
  by (induction s) (auto simp: replace_backslash_def)

lemma join_sep_snoc:
  "join_sep (xs @ [x]) = (if xs = [] then x else join_sep xs @ sep # x)"
  by (induction xs rule: join_sep.induct) auto

lemma join_sep_nonempty: "xs \<noteq> [] \<Longrightarrow> last xs \<noteq> [] \<Longrightarrow> join_sep xs \<noteq> []"
  by (induction xs rule: join_sep.induct) auto

lemma last_join_sep:
  "xs \<noteq> [] \<Longrightarrow> last xs \<noteq> [] \<Longrightarrow> last (join_sep xs) = last (last xs)"
  by (induction xs rule: join_sep.induct) (auto simp: join_sep_nonempty)

lemma plain_join_end:
  assumes "list_all plain_name chain" "chain \<noteq> []"
  shows "replace_backslash (join_sep chain) \<noteq> [] \<and> last (replace_backslash (join_sep chain)) \<noteq> sep"
proof -
  have l: "plain_name (last chain)" using assms by (simp add: list_all_iff)
  then have ne: "join_sep chain \<noteq> []" using assms(2) by (simp add: join_sep_nonempty plain_name_def)
  have "last (join_sep chain) = last (last chain)"
    using l assms(2) by (simp add: last_join_sep plain_name_def)
  moreover have "last (last chain) \<noteq> sep"
    using l unfolding plain_name_def by (metis last_in_set)
  moreover have "last (last chain) \<noteq> backslash"
    using l by (simp add: plain_name_def)
  ultimately show ?thesis
    using ne by (simp add: replace_backslash_def last_map)
qed

lemma posix_join_plain:
  "plain_name b \<Longrightarrow> posix_join a b = (if a = [] \<or> last a = sep then a @ b else a @ sep # b)"
  by (cases b) (auto simp: posix_join_def plain_name_def)

lemma descend_base_plain:
  "list_all plain_name chain \<Longrightarrow> descend_base [] chain = replace_backslash (join_sep chain)"
proof (induction chain rule: rev_induct)
  case Nil
  then show ?case by (simp add: descend_base_def replace_backslash_def)
next
  case (snoc x xs)
  then have ih: "descend_base [] xs = replace_backslash (join_sep xs)" and px: "plain_name x"
    and pxs: "list_all plain_name xs" by simp_all
  have "descend_base [] (xs @ [x]) = replace_backslash (posix_join (descend_base [] xs) x)"
    by (simp add: descend_base_def)
  also have "\<dots> = replace_backslash (join_sep (xs @ [x]))"
  proof (cases "xs = []")
    case True
    then show ?thesis using px by (simp add: descend_base_def posix_join_plain)
  next
    case False
    from plain_join_end[OF pxs False] show ?thesis
      using px False
      by (simp add: ih posix_join_plain join_sep_snoc replace_backslash_append
          replace_backslash_Cons_sep replace_backslash_idem)
  qed
  finally show ?case .
qed

lemma file_at_names:
  "file_at t chain item \<Longrightarrow> all_names P t \<Longrightarrow> list_all P chain \<and> P item"
  by (induction rule: file_at.induct) auto

subsection \<open>Scanning twice\<close>

lemma list_all2_left:
  "list_all2 R xs ys \<Longrightarrow> a \<in> set xs \<Longrightarrow> \<exists>b \<in> set ys. R a b"
  by (induction rule: list_all2_induct) auto

lemma list_all2_right:
  "list_all2 R xs ys \<Longrightarrow> b \<in> set ys \<Longrightarrow> \<exists>a \<in> set xs. R a b"
  by (induction rule: list_all2_induct) auto

lemma same_tree_File_left: "same_tree File u \<Longrightarrow> u = File"
  by (erule same_tree.cases) simp_all

lemma same_tree_File_right: "same_tree t File \<Longrightarrow> t = File"
  by (erule same_tree.cases) simp_all

lemma same_tree_refl: "same_tree t t"
proof (induction t)
  case File
  show ?case by (rule same_File)
next
  case (Unlistable e)
  show ?case by (rule same_Unlistable)
next
  case (Dir items)
  have "list_all2 (\<lambda>a b. fst a = fst b \<and> same_tree (snd a) (snd b)) items items"
    using Dir.IH by (auto simp: list_all2_same snds.simps)
  then show ?case by (rule same_Dir) simp
qed

lemma same_children_left:
  assumes "list_all2 (\<lambda>a b. fst a = fst b \<and> same_tree (snd a) (snd b) \<and> P (snd a) (snd b)) xs ys"
    and "(d, sub) \<in> set xs"
  shows "\<exists>sub'. (d, sub') \<in> set ys \<and> same_tree sub sub' \<and> P sub sub'"
proof -
  from list_all2_left[OF assms] obtain b where b: "b \<in> set ys"
    "fst (d, sub) = fst b \<and> same_tree (snd (d, sub)) (snd b) \<and> P (snd (d, sub)) (snd b)"
    by blast
  obtain d' sub' where "b = (d', sub')" by (cases b)
  with b show ?thesis by auto
qed

lemma same_children_right:
  assumes "list_all2 (\<lambda>a b. fst a = fst b \<and> same_tree (snd a) (snd b) \<and> P (snd a) (snd b)) xs ys"
    and "(d, sub') \<in> set ys"
  shows "\<exists>sub. (d, sub) \<in> set xs \<and> same_tree sub sub' \<and> P sub sub'"
proof -
  from list_all2_right[OF assms] obtain a where a: "a \<in> set xs"
    "fst a = fst (d, sub') \<and> same_tree (snd a) (snd (d, sub')) \<and> P (snd a) (snd (d, sub'))"
    by blast
  obtain d' sub where "a = (d', sub)" by (cases a)
  with a show ?thesis by auto
qed

lemma file_at_set:
  assumes "set xs = set ys" "file_at (Dir xs) chain item"
  shows "file_at (Dir ys) chain item"
  using assms(2)
proof (cases rule: file_at.cases)
  case file_here
  then show ?thesis using assms(1) by (auto intro: file_at.file_here)
next
  case (file_below d sub ch)
  then show ?thesis using assms(1) by (auto intro: file_at.file_below)
qed

lemma same_tree_file_at:
  "same_tree t u \<Longrightarrow> file_at t chain item = file_at u chain item"
proof (induction arbitrary: chain rule: same_tree.induct)
  case same_File
  show ?case by simp
next
  case (same_Unlistable e)
  show ?case by simp
next
  case (same_Dir items items' items'')
  have la: "list_all2 (\<lambda>a b. fst a = fst b \<and> same_tree (snd a) (snd b)
              \<and> (\<forall>x. file_at (snd a) x item = file_at (snd b) x item)) items items'"
    using same_Dir.IH by simp
  have "mset items' = mset items''" by (rule same_Dir.hyps)
  then have st: "set items'' = set items'"
    by (rule mset_eq_setD[symmetric])
  have "file_at (Dir items) chain item = file_at (Dir items') chain item"
  proof
    assume "file_at (Dir items) chain item"
    then show "file_at (Dir items') chain item"
    proof (cases rule: file_at.cases)
      case file_here
      from same_children_left[OF la file_here(2)] obtain sub' where
        "(item, sub') \<in> set items'" "same_tree File sub'" by blast
      then have "(item, File) \<in> set items'" using same_tree_File_left by blast
      then show ?thesis unfolding file_here(1) by (rule file_at.file_here)
    next
      case (file_below d sub ch)
      from same_children_left[OF la file_below(2)] obtain sub' where
        s: "(d, sub') \<in> set items'" "\<forall>x. file_at sub x item = file_at sub' x item" by blast
      then have "file_at sub' ch item" using file_below(3) by simp
      with s(1) show ?thesis unfolding file_below(1) by (rule file_at.file_below)
    qed
  next
    assume "file_at (Dir items') chain item"
    then show "file_at (Dir items) chain item"
    proof (cases rule: file_at.cases)
      case file_here
      from same_children_right[OF la file_here(2)] obtain sub where
        "(item, sub) \<in> set items" "same_tree sub File" by blast
      then have "(item, File) \<in> set items" using same_tree_File_right by blast
      then show ?thesis unfolding file_here(1) by (rule file_at.file_here)
    next
      case (file_below d sub' ch)
      from same_children_right[OF la file_below(2)] obtain sub where
        s: "(d, sub) \<in> set items" "\<forall>x. file_at sub x item = file_at sub' x item" by blast
      then have "file_at sub ch item" using file_below(3) by simp
      with s(1) show ?thesis unfolding file_below(1) by (rule file_at.file_below)
    qed
  qed
  also have "\<dots> = file_at (Dir items'') chain item"
    using file_at_set[OF st] file_at_set[OF st[symmetric]] by blast
  finally show ?case .
qed

lemma record_set_by_files:
  "dir_path \<noteq> [] \<Longrightarrow>
   set (records_of (walk_directory cwd t dir_path base (Some root_dir))) =
     {r. \<exists>chain. file_at t chain (name r) \<and> admitted cwd dir_path root_dir chain (name r)
           \<and> folder r = replace_backslash (descend_base base chain)}"
proof (intro set_eqI iffI)
  fix r :: file_record
  assume "dir_path \<noteq> []" "r \<in> set (records_of (walk_directory cwd t dir_path base (Some root_dir)))"
  then show "r \<in> {r. \<exists>chain. file_at t chain (name r) \<and> admitted cwd dir_path root_dir chain (name r)
           \<and> folder r = replace_backslash (descend_base base chain)}"
    using emitted_is_admitted_file by blast
next
  fix r :: file_record
  assume d: "dir_path \<noteq> []" and "r \<in> {r. \<exists>chain. file_at t chain (name r) \<and> admitted cwd dir_path root_dir chain (name r)
           \<and> folder r = replace_backslash (descend_base base chain)}"
  then obtain chain where c: "file_at t chain (name r)" "admitted cwd dir_path root_dir chain (name r)"
    "folder r = replace_backslash (descend_base base chain)" by blast
  have "\<lparr>folder = replace_backslash (descend_base base chain), name = name r\<rparr>
      \<in> set (records_of (walk_directory cwd t dir_path base (Some root_dir)))"
    by (rule admitted_file_is_emitted[OF c(1) d c(2)])
  moreover have "r = \<lparr>folder = replace_backslash (descend_base base chain), name = name r\<rparr>"
    using c(3) by simp
  ultimately show "r \<in> set (records_of (walk_directory cwd t dir_path base (Some root_dir)))"
    by simp
qed

text \<open>
  C8. Scanning the same unchanged tree twice gives the same set of records: two walks
  of one tree from the same root return lists with the same elements, also when the
  listings come in another order the second time. With equal listings the two trees
  are equal (\<open>same_tree\<close> is reflexive), which is the case the claim names.
\<close>

theorem same_tree_same_record_set:
  "same_tree t u \<Longrightarrow> dir_path \<noteq> [] \<Longrightarrow>
   set (records_of (walk_directory cwd t dir_path base (Some root_dir))) =
   set (records_of (walk_directory cwd u dir_path base (Some root_dir)))"
proof -
  assume s: "same_tree t u" and d: "dir_path \<noteq> []"
  have "file_at t chain item = file_at u chain item" for chain item
    using s by (rule same_tree_file_at)
  then show ?thesis
    unfolding record_set_by_files[OF d] by simp
qed

lemma swapped_listing_same_tree:
  "same_tree (Dir [(''sub'', Dir [(''b.txt'', File), (''c.txt'', File)]), (''docs'', Dir [(''d.txt'', File)])])
             (Dir [(''docs'', Dir [(''d.txt'', File)]), (''sub'', Dir [(''c.txt'', File), (''b.txt'', File)])])"
proof -
  have m1: "mset [(''b.txt'', File), (''c.txt'', File)] = mset [(''c.txt'', File), (''b.txt'', File)]"
    by (simp add: add_mset_commute)
  have l1: "list_all2 (\<lambda>a b. fst a = fst b \<and> same_tree (snd a) (snd b))
              [(''b.txt'', File), (''c.txt'', File)] [(''b.txt'', File), (''c.txt'', File)]"
    by (simp add: same_File)
  have sub: "same_tree (Dir [(''b.txt'', File), (''c.txt'', File)]) (Dir [(''c.txt'', File), (''b.txt'', File)])"
    using l1 m1 by (rule same_Dir)
  have m2: "mset [(''sub'', Dir [(''c.txt'', File), (''b.txt'', File)]), (''docs'', Dir [(''d.txt'', File)])] =
            mset [(''docs'', Dir [(''d.txt'', File)]), (''sub'', Dir [(''c.txt'', File), (''b.txt'', File)])]"
    by (simp add: add_mset_commute)
  have l2: "list_all2 (\<lambda>a b. fst a = fst b \<and> same_tree (snd a) (snd b))
              [(''sub'', Dir [(''b.txt'', File), (''c.txt'', File)]), (''docs'', Dir [(''d.txt'', File)])]
              [(''sub'', Dir [(''c.txt'', File), (''b.txt'', File)]), (''docs'', Dir [(''d.txt'', File)])]"
    by (simp add: sub same_tree_refl)
  show ?thesis using l2 m2 by (rule same_Dir)
qed

theorem same_tree_same_record_set_witness:
  "same_tree (Dir [(''sub'', Dir [(''b.txt'', File), (''c.txt'', File)]), (''docs'', Dir [(''d.txt'', File)])])
             (Dir [(''docs'', Dir [(''d.txt'', File)]), (''sub'', Dir [(''c.txt'', File), (''b.txt'', File)])])
   \<and> ''/r'' \<noteq> []
   \<and> set (records_of (walk_directory ''/home''
        (Dir [(''sub'', Dir [(''b.txt'', File), (''c.txt'', File)]), (''docs'', Dir [(''d.txt'', File)])])
        ''/r'' [] (Some ''/r''))) =
     set (records_of (walk_directory ''/home''
        (Dir [(''docs'', Dir [(''d.txt'', File)]), (''sub'', Dir [(''c.txt'', File), (''b.txt'', File)])])
        ''/r'' [] (Some ''/r'')))"
proof -
  have ne: "''/r'' \<noteq> []" by simp
  from swapped_listing_same_tree ne
    same_tree_same_record_set[OF swapped_listing_same_tree ne, of "''/home''" "[]" "''/r''"]
  show ?thesis by (intro conjI)
qed

lemma swapped_listing_example:
  "records_of (walk_directory ''/home''
        (Dir [(''sub'', Dir [(''b.txt'', File), (''c.txt'', File)]), (''docs'', Dir [(''d.txt'', File)])])
        ''/r'' [] (Some ''/r'')) =
     [\<lparr>folder = ''sub'', name = ''b.txt''\<rparr>, \<lparr>folder = ''sub'', name = ''c.txt''\<rparr>,
      \<lparr>folder = ''docs'', name = ''d.txt''\<rparr>]
   \<and> records_of (walk_directory ''/home''
        (Dir [(''docs'', Dir [(''d.txt'', File)]), (''sub'', Dir [(''c.txt'', File), (''b.txt'', File)])])
        ''/r'' [] (Some ''/r'')) =
     [\<lparr>folder = ''docs'', name = ''d.txt''\<rparr>, \<lparr>folder = ''sub'', name = ''c.txt''\<rparr>,
      \<lparr>folder = ''sub'', name = ''b.txt''\<rparr>]"
  by code_simp

subsection \<open>Skipped directories\<close>

lemma split_sep_no_sep: "sep \<notin> set w \<Longrightarrow> split_sep w = [w]"
  by (induction w) auto

lemma split_sep_append_sep:
  "sep \<notin> set w \<Longrightarrow> split_sep (w @ sep # rest) = w # split_sep rest"
  by (induction w) auto

lemma split_sep_join_sep:
  "\<forall>n \<in> set chain. sep \<notin> set n \<Longrightarrow> chain \<noteq> [] \<Longrightarrow> split_sep (join_sep chain) = chain"
  by (induction chain rule: join_sep.induct)
    (simp_all add: split_sep_no_sep split_sep_append_sep)

lemma clean_name_plain: "clean_name n \<Longrightarrow> plain_name n"
  unfolding clean_name_def plain_name_def by (metis last_in_set)

lemma join_sep_no_backslash:
  "\<forall>n \<in> set chain. backslash \<notin> set n \<Longrightarrow> backslash \<notin> set (join_sep chain)"
  using sep_not_backslash
  by (induction chain rule: join_sep.induct) auto

lemma skip_empty_name: "\<not> should_skip_directory [] b"
  by (simp add: should_skip_directory_def lower_def)

subsection \<open>Paths below the scan root\<close>

lemma listed_name_hd: "listed_name n \<Longrightarrow> hd n \<noteq> sep"
  unfolding listed_name_def by (metis hd_in_set)

lemma listed_name_last: "listed_name n \<Longrightarrow> last n \<noteq> sep"
  unfolding listed_name_def by (metis last_in_set)

lemma join_sep_valid_nonempty:
  "list_all listed_name cs \<Longrightarrow> cs \<noteq> [] \<Longrightarrow> join_sep cs \<noteq> []"
  by (induction cs rule: join_sep.induct) (auto simp: listed_name_def)

lemma join_sep_valid_hd:
  "list_all listed_name cs \<Longrightarrow> cs \<noteq> [] \<Longrightarrow> hd (join_sep cs) \<noteq> sep"
  by (induction cs rule: join_sep.induct) (auto simp: listed_name_hd listed_name_def)

lemma join_sep_valid_last:
  "list_all listed_name cs \<Longrightarrow> cs \<noteq> [] \<Longrightarrow> last (join_sep cs) \<noteq> sep"
  by (induction cs rule: join_sep.induct)
    (auto simp: listed_name_last join_sep_valid_nonempty)

lemma posix_join_valid:
  "listed_name n \<Longrightarrow> posix_join a n = (if a = [] \<or> last a = sep then a @ n else a @ sep # n)"
  using listed_name_hd[of n] by (simp add: posix_join_def listed_name_def)

lemma rooted_snoc:
  assumes "0 < k" "list_all listed_name cs" "listed_name n"
  shows "posix_join (rooted k cs) n = rooted k (cs @ [n])"
proof (cases "cs = []")
  case True
  then show ?thesis using assms by (simp add: rooted_def posix_join_valid)
next
  case False
  then have "last (rooted k cs) \<noteq> sep" "rooted k cs \<noteq> []"
    using assms join_sep_valid_last[of cs] join_sep_valid_nonempty[of cs]
    by (simp_all add: rooted_def)
  then show ?thesis using assms False
    by (simp add: posix_join_valid rooted_def join_sep_snoc)
qed

lemma rooted_descend:
  "0 < k \<Longrightarrow> list_all listed_name cs \<Longrightarrow> list_all listed_name ns \<Longrightarrow>
   foldl posix_join (rooted k cs) ns = rooted k (cs @ ns)"
proof (induction ns arbitrary: cs)
  case Nil
  show ?case by simp
next
  case (Cons n ns)
  then have "posix_join (rooted k cs) n = rooted k (cs @ [n])"
    by (simp add: rooted_snoc)
  moreover have "foldl posix_join (rooted k (cs @ [n])) ns = rooted k ((cs @ [n]) @ ns)"
    using Cons.prems by (intro Cons.IH) simp_all
  ultimately show ?case by simp
qed


lemma split_sep_seps: "split_sep (replicate k sep @ s) = replicate k [] @ split_sep s"
  by (induction k) simp_all

lemma normpath_step_empties:
  "foldl (normpath_step b) acc (replicate k []) = acc"
  by (induction k) (simp_all add: normpath_step_def)

lemma normpath_step_listed:
  "listed_name c \<Longrightarrow> normpath_step b acc c = acc @ [c]"
  by (simp add: normpath_step_def listed_name_def)

lemma normpath_steps_listed:
  "list_all listed_name cs \<Longrightarrow> foldl (normpath_step b) acc cs = acc @ cs"
  by (induction cs arbitrary: acc) (simp_all add: normpath_step_listed)

lemma split_sep_listed:
  "list_all listed_name cs \<Longrightarrow> cs \<noteq> [] \<Longrightarrow> split_sep (join_sep cs) = cs"
  by (rule split_sep_join_sep) (auto simp: list_all_iff listed_name_def)

lemma normpath_comps_rooted:
  assumes "list_all listed_name cs"
  shows "foldl (normpath_step b) [] (split_sep (rooted k cs)) = cs"
proof (cases "cs = []")
  case True
  then show ?thesis
    using split_sep_seps[of k "[]"]
    by (simp add: rooted_def normpath_step_empties normpath_step_def)
next
  case False
  then show ?thesis using assms
    by (simp add: rooted_def split_sep_seps normpath_step_empties split_sep_listed
        normpath_steps_listed)
qed

lemma initial_slashes_rooted:
  assumes "list_all listed_name cs" and kk: "k = 1 \<or> k = 2"
  shows "(take 2 (rooted k cs) = [sep, sep] \<and> take 3 (rooted k cs) \<noteq> [sep, sep, sep]) = (k = 2)"
proof (cases "cs = []")
  case True
  then show ?thesis using kk by (auto simp: rooted_def numeral_2_eq_2)
next
  case False
  then obtain c rest where j: "join_sep cs = c # rest" "c \<noteq> sep"
    using assms join_sep_valid_nonempty[of cs] join_sep_valid_hd[of cs]
    by (cases "join_sep cs") auto
  show ?thesis using kk j by (auto simp: rooted_def numeral_2_eq_2 numeral_3_eq_3)
qed

lemma normpath_rooted:
  assumes "k = 1 \<or> k = 2" "list_all listed_name cs"
  shows "normpath (rooted k cs) = rooted k cs"
proof -
  have ne: "rooted k cs \<noteq> []" using assms(1) by (auto simp: rooted_def)
  have ab: "isabs (rooted k cs)" using assms(1) by (auto simp: rooted_def isabs_def)
  have sl: "(if take 2 (rooted k cs) = [sep, sep] \<and> take 3 (rooted k cs) \<noteq> [sep, sep, sep]
             then 2 else 1 :: nat) = k"
    using initial_slashes_rooted[OF assms(2) assms(1)] assms(1) by auto
  show ?thesis
    unfolding normpath_def Let_def
    using ne ab assms(1)
    by (simp only: sl if_True if_False normpath_comps_rooted[OF assms(2)])
      (auto simp: rooted_def)
qed

lemma isabs_rooted: "0 < k \<Longrightarrow> isabs (rooted k cs)"
  by (cases k) (simp_all add: isabs_def rooted_def)

lemma abspath_rooted:
  "k = 1 \<or> k = 2 \<Longrightarrow> list_all listed_name cs \<Longrightarrow> abspath cwd (rooted k cs) = rooted k cs"
  using isabs_rooted[of k cs] by (auto simp: abspath_def normpath_rooted)

lemma lstrip_sep_rooted:
  assumes "list_all listed_name cs"
  shows "lstrip_sep (rooted k cs) = join_sep cs"
proof (cases "cs = []")
  case True
  then show ?thesis by (simp add: rooted_def lstrip_sep_def)
next
  case False
  then obtain c rest where j: "join_sep cs = c # rest" "c \<noteq> sep"
    using assms join_sep_valid_nonempty[of cs] join_sep_valid_hd[of cs]
    by (cases "join_sep cs") auto
  have "dropWhile (\<lambda>c. c = sep) (replicate k sep @ c # rest) = c # rest"
    using j(2) by (induction k) simp_all
  then show ?thesis using j by (simp add: rooted_def lstrip_sep_def)
qed

lemma commonprefix_append: "commonprefix xs (xs @ ys) = xs"
  by (induction xs) simp_all

lemma relpath_rooted:
  assumes k: "k = 1 \<or> k = 2" and cs: "list_all listed_name cs"
    and ns: "list_all listed_name ns" and ne: "ns \<noteq> []"
  shows "relpath cwd (rooted k (cs @ ns)) (rooted k cs) = Inr (join_sep ns)"
proof -
  have all: "list_all listed_name (cs @ ns)" using cs ns by simp
  have p: "rooted k (cs @ ns) \<noteq> []" using k by (auto simp: rooted_def)
  have st: "(if join_sep cs = [] then [] else split_sep (join_sep cs)) = cs"
    using cs join_sep_valid_nonempty[of cs] by (cases "cs = []") (simp_all add: split_sep_listed)
  have pt: "(if join_sep (cs @ ns) = [] then [] else split_sep (join_sep (cs @ ns))) = cs @ ns"
    using all ne join_sep_valid_nonempty[of "cs @ ns"] by (simp add: split_sep_listed)
  show ?thesis
    unfolding relpath_def Let_def
    using p ne
    by (simp only: abspath_rooted[OF k cs] abspath_rooted[OF k all]
        lstrip_sep_rooted[OF cs] lstrip_sep_rooted[OF all] st pt commonprefix_append)
      simp
qed


lemma split_sep_nonempty: "split_sep p \<noteq> []"
  by (induction p) simp_all

lemma split_sep_pieces: "\<forall>c \<in> set (split_sep p). sep \<notin> set c"
proof (induction p)
  case Nil
  show ?case by simp
next
  case (Cons a p)
  obtain h t where ht: "split_sep p = h # t"
    using split_sep_nonempty[of p] by (cases "split_sep p") auto
  show ?case using Cons.IH by (auto simp: ht)
qed

lemma normpath_step_keeps_listed:
  assumes "list_all listed_name acc" "sep \<notin> set c"
  shows "list_all listed_name (normpath_step True acc c)"
proof -
  have nodots: "acc \<noteq> [] \<Longrightarrow> last acc \<noteq> ''..''"
    using assms(1) last_in_set[of acc] by (auto simp: list_all_iff listed_name_def)
  have bl: "list_all listed_name (butlast acc)"
    using assms(1) by (auto simp: list_all_iff dest: in_set_butlastD)
  show ?thesis
    using assms nodots bl by (auto simp: normpath_step_def listed_name_def)
qed

lemma normpath_steps_keep_listed:
  "list_all listed_name acc \<Longrightarrow> \<forall>c \<in> set comps. sep \<notin> set c \<Longrightarrow>
   list_all listed_name (foldl (normpath_step True) acc comps)"
  by (induction comps arbitrary: acc) (simp_all add: normpath_step_keeps_listed)

lemma normpath_isabs_rooted:
  assumes "isabs p"
  shows "\<exists>k cs. (k = 1 \<or> k = 2) \<and> list_all listed_name cs \<and> normpath p = rooted k cs"
proof -
  define k where "k = (if take 2 p = [sep, sep] \<and> take 3 p \<noteq> [sep, sep, sep] then 2 else 1 :: nat)"
  define cs where "cs = foldl (normpath_step True) [] (split_sep p)"
  have k: "k = 1 \<or> k = 2" by (simp add: k_def)
  have cs: "list_all listed_name cs"
    unfolding cs_def by (rule normpath_steps_keep_listed) (simp_all add: split_sep_pieces)
  have "normpath p = rooted k cs"
    using assms k by (auto simp: normpath_def Let_def k_def[symmetric] cs_def[symmetric] rooted_def isabs_def)
  then show ?thesis using k cs by blast
qed

lemma isabs_posix_join: "isabs a \<Longrightarrow> isabs (posix_join a b)"
  by (auto simp: isabs_def posix_join_def)

lemma scan_root_rooted:
  assumes "isabs cwd"
  shows "\<exists>k cs. (k = 1 \<or> k = 2) \<and> list_all listed_name cs \<and> scan_root cwd argv = rooted k cs"
  unfolding scan_root_def abspath_def
  by (rule normpath_isabs_rooted) (simp add: isabs_posix_join assms)

lemma takeWhile_no_sep: "sep \<notin> set n \<Longrightarrow> takeWhile (\<lambda>c. c \<noteq> sep) (rev n) = rev n"
  by (auto simp: takeWhile_eq_all_conv)

lemma dirname_one: "sep \<notin> set n \<Longrightarrow> dirname n = []"
  by (simp add: dirname_def takeWhile_no_sep)

lemma dirname_more:
  assumes "sep \<notin> set n" "s \<noteq> []" "last s \<noteq> sep"
  shows "dirname (s @ sep # n) = s"
proof -
  have tw: "takeWhile (\<lambda>c. c \<noteq> sep) (rev (s @ sep # n)) = rev n"
    using assms(1) by (simp add: takeWhile_tail takeWhile_no_sep)
  have hdp: "take (length (s @ sep # n) - length (rev n)) (s @ sep # n) = s @ [sep]"
    by simp
  have notseps: "s @ [sep] \<noteq> replicate (length (s @ [sep])) sep"
  proof
    assume "s @ [sep] = replicate (length (s @ [sep])) sep"
    then have "set (s @ [sep]) \<subseteq> {sep}" by (metis set_replicate_conv_if empty_subsetI subset_refl)
    then have "set s \<subseteq> {sep}" by simp
    moreover have "last s \<in> set s" using assms(2) by (rule last_in_set)
    ultimately show False using assms(3) by blast
  qed
  have rs: "rstrip_sep (s @ [sep]) = s"
    using assms(2,3) by (cases s rule: rev_cases) (simp_all add: rstrip_sep_def)
  show ?thesis
    unfolding dirname_def Let_def tw hdp using notseps rs by simp
qed

lemma dirname_join_sep:
  assumes "list_all listed_name ns" "ns \<noteq> []"
  shows "dirname (join_sep ns) = join_sep (butlast ns)"
proof (cases ns rule: rev_cases)
  case Nil
  then show ?thesis using assms by simp
next
  case (snoc xs n)
  have n: "sep \<notin> set n" using assms(1) snoc by (simp add: listed_name_def)
  show ?thesis
  proof (cases "xs = []")
    case True
    then show ?thesis using snoc n by (simp add: dirname_one)
  next
    case False
    then have "join_sep xs \<noteq> []" "last (join_sep xs) \<noteq> sep"
      using assms(1) snoc by (simp_all add: join_sep_valid_nonempty join_sep_valid_last)
    then show ?thesis using snoc n False by (simp add: join_sep_snoc dirname_more)
  qed
qed

lemma join_sep_two: "2 \<le> length xs \<Longrightarrow> sep \<in> set (join_sep xs)"
  by (induction xs rule: join_sep.induct) simp_all

lemma join_sep_not_dot:
  assumes "list_all listed_name xs"
  shows "join_sep xs \<noteq> ''.''"
proof (cases "2 \<le> length xs")
  case True
  then have "sep \<in> set (join_sep xs)" by (rule join_sep_two)
  then show ?thesis by (auto simp: sep_def)
next
  case False
  then have "xs = [] \<or> (\<exists>x. xs = [x])"
    by (cases xs) (auto simp: Suc_le_eq numeral_2_eq_2)
  then show ?thesis using assms by (auto simp: listed_name_def)
qed

lemma root_level_check_never_fires:
  assumes "list_all listed_name ns" "ns \<noteq> []"
  shows "dirname (join_sep ns) \<noteq> ''.''"
proof -
  have "list_all listed_name (butlast ns)"
    using assms(1) by (auto simp: list_all_iff dest: in_set_butlastD)
  then show ?thesis using assms by (simp add: dirname_join_sep join_sep_not_dot)
qed

lemma should_include_file_rooted:
  assumes k: "k = 1 \<or> k = 2" and cs: "list_all listed_name cs"
    and ns: "list_all listed_name ns" and ne: "ns \<noteq> []"
  shows "should_include_file cwd (foldl posix_join (rooted k cs) ns) (rooted k cs) =
         Inr (\<not> (dirname (join_sep ns) = ''.'' \<or> ''images'' \<in> set ns))"
proof -
  have "0 < k" using k by auto
  then have p: "foldl posix_join (rooted k cs) ns = rooted k (cs @ ns)"
    using cs ns by (rule rooted_descend)
  show ?thesis
    unfolding should_include_file_def p relpath_rooted[OF k cs ns ne]
    using ns ne by (simp add: split_sep_listed)
qed


lemma mixed_case_segment_example:
  "should_include_file ''/home'' ''/r/sub/Images'' ''/r'' = Inr True
   \<and> should_include_file ''/home'' ''/r/Images/a.txt'' ''/r'' = Inr True
   \<and> should_include_file ''/home'' ''/r/images/a.txt'' ''/r'' = Inr False"
  by code_simp

text \<open>
  C3. Take a non-directory entry the walk meets: it is reached from the scan root
  through the listed names \<open>names\<close> (the directories entered, then the entry's own
  name), so its path is the scan root joined with these names one after the other.
  Its path relative to the scan root is these names joined by slashes, and its
  segments are exactly \<open>names\<close>. \<open>should_include_file\<close> raises nothing on it and
  answers \<open>False\<close> when the root-level check fires or when one of the segments, the
  entry's own name included, is the string \<^verbatim>\<open>images\<close> in exactly this case, and
  \<open>True\<close> otherwise.
\<close>

theorem should_include_file_excludes_images_segments:
  assumes "isabs cwd" "list_all listed_name names" "names \<noteq> []"
  shows "relpath cwd (foldl posix_join (scan_root cwd argv) names) (scan_root cwd argv) =
           Inr (join_sep names)
         \<and> split_sep (join_sep names) = names
         \<and> should_include_file cwd (foldl posix_join (scan_root cwd argv) names)
               (scan_root cwd argv) =
             Inr (\<not> (dirname (join_sep names) = ''.'' \<or> ''images'' \<in> set names))"
proof -
  obtain k cs where k: "k = 1 \<or> k = 2" and cs: "list_all listed_name cs"
    and root: "scan_root cwd argv = rooted k cs"
    using scan_root_rooted[OF assms(1), of argv] by blast
  have "0 < k" using k by auto
  then have p: "foldl posix_join (rooted k cs) names = rooted k (cs @ names)"
    using cs assms(2) by (rule rooted_descend)
  have "relpath cwd (foldl posix_join (rooted k cs) names) (rooted k cs) = Inr (join_sep names)"
    unfolding p using k cs assms(2,3) by (rule relpath_rooted)
  moreover have "split_sep (join_sep names) = names"
    using assms(2,3) by (rule split_sep_listed)
  moreover have "should_include_file cwd (foldl posix_join (rooted k cs) names) (rooted k cs) =
      Inr (\<not> (dirname (join_sep names) = ''.'' \<or> ''images'' \<in> set names))"
    using k cs assms(2,3) by (rule should_include_file_rooted)
  ultimately show ?thesis unfolding root by simp
qed

theorem should_include_file_excludes_images_segments_witness:
  "isabs ''/home'' \<and> list_all listed_name [''sub'', ''images'']
   \<and> relpath ''/home''
        (foldl posix_join (scan_root ''/home'' [''generateFileTree.py'', ''/r'']) [''sub'', ''images''])
        (scan_root ''/home'' [''generateFileTree.py'', ''/r'']) = Inr ''sub/images''
   \<and> should_include_file ''/home''
        (foldl posix_join (scan_root ''/home'' [''generateFileTree.py'', ''/r'']) [''sub'', ''images''])
        (scan_root ''/home'' [''generateFileTree.py'', ''/r'']) = Inr False"
proof -
  have a: "isabs ''/home''" by (simp add: isabs_def sep_def)
  have l: "list_all listed_name [''sub'', ''images'']" by (simp add: listed_name_def sep_def)
  have n: "[''sub'', ''images''] \<noteq> ([] :: string list)" by simp
  show ?thesis
    using should_include_file_excludes_images_segments
      [OF a l n, of "[''generateFileTree.py'', ''/r'']"] a l
    by (simp add: sep_def)
qed

end
